theory Spec2Isabelle
  imports Main "HOL-Library.Word"
begin

section \<open>A shallow embedding of the thread pool (threadpool.h, threadpool.cpp)\<close>

text \<open>
  The classes of the library are records, their member functions are functions that take
  the object (or the state of the process) and return the updated one. A call that blocks
  returns \<open>None\<close>; a \<^verbatim>\<open>throw\<close> and undefined behaviour (a null or dangling
  pointer that is dereferenced) are values of the type \<open>failure\<close>. A member
  \<^verbatim>\<open>name_\<close> of the source is the field \<open>name\<close> here: a name of Isabelle cannot
  end with an underscore.

  What the model takes for granted:
  \<^item> the process has one \<^verbatim>\<open>ThreadPool\<close>, so \<^verbatim>\<open>Thread::generateId_\<close> is 0 when the
    pool is constructed;
  \<^item> the calls of the pool's interface do not overlap one another, and the statements a
    thread executes while it holds \<^verbatim>\<open>taskQueMtx_\<close> are one step; \<^verbatim>\<open>start\<close>, which
    takes no lock, is one step as well (a worker it has started can by then only take a
    task, which commutes with the rest of \<^verbatim>\<open>start\<close>);
  \<^item> a \<^verbatim>\<open>Result\<close> is built in the caller's storage (\<^verbatim>\<open>return Result(sp)\<close> under
    guaranteed copy elision) and is never destroyed, so the pointer a task keeps to it
    does not dangle;
  \<^item> \<^verbatim>\<open>int\<close> members that only count (\<^verbatim>\<open>resLimit_\<close>, \<^verbatim>\<open>generateId_\<close>) are
    integers of HOL: they would overflow only after \<open>2^31\<close> increments.
\<close>

subsection \<open>Failures\<close>

datatype failure =
    Thrown string          \<comment> \<open>\<^verbatim>\<open>throw "..."\<close>: the thrown C string\<close>
  | Undefined_behaviour    \<comment> \<open>a null or dangling pointer is dereferenced\<close>

subsection \<open>Any (threadpool.h, lines 22-69)\<close>

text \<open>
  The values a caller stores: a small universe of C++ values, each with its static type.
  \<open>CCharPtr\<close> is a \<^verbatim>\<open>const char*\<close> to a string literal.
\<close>

datatype ctype = T_int | T_bool | T_string | T_charptr

datatype cval = CInt int | CBool bool | CString string | CCharPtr string

fun type_of :: "cval \<Rightarrow> ctype" where
  "type_of (CInt _) = T_int"
| "type_of (CBool _) = T_bool"
| "type_of (CString _) = T_string"
| "type_of (CCharPtr _) = T_charptr"

text \<open>
  The object \<open>base\<close> points to, with its dynamic class. \<open>Derive_obj d\<close> is an object
  of class \<^verbatim>\<open>Derive<T>\<close> whose member \<^verbatim>\<open>date_\<close> is \<open>d\<close> (and \<open>T\<close> is
  \<open>type_of d\<close>); \<open>Plain_obj d\<close> is an object of class \<^verbatim>\<open>T\<close> itself, which
  is what \<^verbatim>\<open>std::make_unique<T>(date)\<close> allocates.
\<close>

datatype obj = Plain_obj cval | Derive_obj cval

record Any =
  base :: "obj option"    \<comment> \<open>\<^verbatim>\<open>std::unique_ptr<Base>\<close>; \<open>None\<close> is the null pointer\<close>

text \<open>\<^verbatim>\<open>Any() = default\<close>: the container that holds nothing.\<close>

definition Any_default :: Any where
  "Any_default = \<lparr>base = None\<rparr>"

text \<open>
  Line 34, as it is written: \<^verbatim>\<open>Any(T date) : base_(std::make_unique<T>(date))\<close>.
  The pointee is a \<^verbatim>\<open>T\<close>, not a \<^verbatim>\<open>Derive<T>\<close>: the class template of lines
  60-66 is declared and nowhere instantiated.
\<close>

definition Any_ctor :: "cval \<Rightarrow> Any" where
  "Any_ctor date = \<lparr>base = Some (Plain_obj date)\<rparr>"

text \<open>
  \<^verbatim>\<open>dynamic_cast<Derive<T>*>(base_.get())\<close>: the pointer itself when the pointee is a
  \<^verbatim>\<open>Derive<T>\<close>, null otherwise (also for a null \<open>base\<close>).
\<close>

fun dynamic_cast_Derive :: "ctype \<Rightarrow> obj option \<Rightarrow> cval option" where
  "dynamic_cast_Derive T (Some (Derive_obj d)) = (if type_of d = T then Some d else None)"
| "dynamic_cast_Derive T (Some (Plain_obj d)) = None"
| "dynamic_cast_Derive T None = None"

text \<open>Lines 37-51: \<^verbatim>\<open>T cast()\<close>, with the template argument as a parameter.\<close>

definition Any_cast :: "ctype \<Rightarrow> Any \<Rightarrow> failure + cval" where
  "Any_cast T a =
     (case dynamic_cast_Derive T (base a) of
        None \<Rightarrow> Inl (Thrown ''type is unmatch!'')
      | Some date \<Rightarrow> Inr date)"

subsection \<open>Semaphore (threadpool.h, lines 72-99)\<close>

record Semaphore =
  resLimit :: int

text \<open>Line 75: \<^verbatim>\<open>Semaphore(int limit = 0) : resLimit_(0)\<close>.\<close>

definition Semaphore_ctor :: "int \<Rightarrow> Semaphore" where
  "Semaphore_ctor limit = \<lparr>resLimit = 0\<rparr>"

text \<open>
  \<^verbatim>\<open>wait()\<close> sleeps on the condition variable until \<^verbatim>\<open>resLimit_ > 0\<close> and then
  decrements. \<open>None\<close>: the caller is still blocked (no other thread changes the count in
  between, so it cannot go on).
\<close>

definition Semaphore_wait :: "Semaphore \<Rightarrow> Semaphore option" where
  "Semaphore_wait s =
     (if resLimit s > 0 then Some (s\<lparr>resLimit := resLimit s - 1\<rparr>) else None)"

definition Semaphore_post :: "Semaphore \<Rightarrow> Semaphore" where
  "Semaphore_post s = s\<lparr>resLimit := resLimit s + 1\<rparr>"

subsection \<open>Result and Task (threadpool.h, lines 105-135)\<close>

type_synonym task_ref = nat      \<comment> \<open>the address of a \<^verbatim>\<open>Task\<close> (what a \<^verbatim>\<open>shared_ptr<Task>\<close> holds)\<close>
type_synonym result_ref = nat    \<comment> \<open>the address of a \<^verbatim>\<open>Result\<close> (\<^verbatim>\<open>Result*\<close>)\<close>

record Result =
  any :: Any
  sem :: Semaphore
  task :: task_ref
  isValid :: bool

text \<open>
  A task: the \<^verbatim>\<open>result_\<close> back pointer (\<open>None\<close> is \<^verbatim>\<open>nullptr\<close>) and, for the
  pure virtual \<^verbatim>\<open>run()\<close>, the value the user's override returns.
\<close>

record Task =
  result :: "result_ref option"
  run_returns :: Any

text \<open>threadpool.cpp, lines 266-270: \<^verbatim>\<open>Result::setVal\<close>.\<close>

definition Result_setVal :: "Result \<Rightarrow> Any \<Rightarrow> Result" where
  "Result_setVal r a = r\<lparr>any := a, sem := Semaphore_post (sem r)\<rparr>"

text \<open>
  threadpool.cpp, lines 273-282: \<^verbatim>\<open>Result::get\<close>. The invalid branch is
  \<^verbatim>\<open>return "";\<close>: an \<open>Any\<close> built from the string literal. The valid branch waits
  on the semaphore (\<open>None\<close> while blocked) and moves \<open>any\<close> out, which leaves the
  member null.
\<close>

definition Result_get :: "Result \<Rightarrow> (Any \<times> Result) option" where
  "Result_get r =
     (if isValid r = False then Some (Any_ctor (CCharPtr ''''), r)
      else (case Semaphore_wait (sem r) of
              None \<Rightarrow> None
            | Some s \<Rightarrow> Some (any r, r\<lparr>any := Any_default, sem := s\<rparr>)))"

subsection \<open>Thread (threadpool.h, lines 138-155; threadpool.cpp, lines 235-257)\<close>

datatype PoolMode = MODE_FIXED | MODE_CACHED

text \<open>
  A \<^verbatim>\<open>Thread\<close> object. Its \<^verbatim>\<open>func_\<close> is always the pool's
  \<^verbatim>\<open>threadFunc\<close> and is left out.
\<close>

record Thread =
  threadId :: int

subsection \<open>The state of the process\<close>

text \<open>
  The members of the one \<^verbatim>\<open>ThreadPool\<close> of the process, the static counter
  \<^verbatim>\<open>Thread::generateId_\<close>, the heap of tasks and results, the local variable
  \<^verbatim>\<open>task\<close> of each worker, and what the process does that can be observed: the
  operating system threads it spawns, the calls of \<^verbatim>\<open>run()\<close>, the lines on
  \<^verbatim>\<open>std::cerr\<close>.

  \<^verbatim>\<open>std::atomic_uint\<close> is a 32-bit word, \<^verbatim>\<open>size_t\<close> a 64-bit word, and an
  \<^verbatim>\<open>int\<close> is an \<open>int\<close> of HOL that is converted (\<open>word_of_int\<close>, modulo the
  width) where the source converts it. \<^verbatim>\<open>threads_\<close> is an association list with
  distinct keys; a pointer in it is never null. The queue holds addresses of tasks.
\<close>

record process =
  threads :: "(int \<times> Thread) list"
  initThreadSize :: int
  idleThreadSize :: "32 word"
  curThreadSize :: "32 word"
  threadSizeThreshHold :: "64 word"
  taskQue :: "task_ref list"
  taskSize :: "32 word"
  taskQueMaxThreshHold :: "64 word"
  poolMode :: PoolMode
  isPoolRunning :: bool
  generateId :: int
  task_heap :: "task_ref \<rightharpoonup> Task"
  result_heap :: "result_ref \<rightharpoonup> Result"
  local_task :: "int \<rightharpoonup> task_ref"
  spawned :: "int list"
  run_log :: "task_ref list"
  cerr :: "string list"

text \<open>\<^verbatim>\<open>std::unordered_map\<close>: \<^verbatim>\<open>insert\<close> and \<^verbatim>\<open>emplace\<close> keep an entry that is
  already there; \<^verbatim>\<open>erase\<close> by key; \<^verbatim>\<open>size\<close> is \<open>length\<close>, lookup is \<open>map_of\<close>.\<close>

definition umap_insert :: "int \<times> Thread \<Rightarrow> (int \<times> Thread) list \<Rightarrow> (int \<times> Thread) list" where
  "umap_insert kv m = (case map_of m (fst kv) of None \<Rightarrow> m @ [kv] | Some _ \<Rightarrow> m)"

definition umap_erase :: "int \<Rightarrow> (int \<times> Thread) list \<Rightarrow> (int \<times> Thread) list" where
  "umap_erase k m = filter (\<lambda>kv. fst kv \<noteq> k) m"

text \<open>threadpool.cpp, lines 237-240: the constructor takes the next id.\<close>

definition Thread_ctor :: "process \<Rightarrow> Thread \<times> process" where
  "Thread_ctor s = (\<lparr>threadId = generateId s\<rparr>, s\<lparr>generateId := generateId s + 1\<rparr>)"

text \<open>threadpool.cpp, lines 246-251: \<^verbatim>\<open>Thread::start\<close> spawns a detached thread that runs
  \<^verbatim>\<open>func_(threadId_)\<close>.\<close>

definition Thread_start :: "Thread \<Rightarrow> process \<Rightarrow> process" where
  "Thread_start t s = s\<lparr>spawned := spawned s @ [threadId t]\<rparr>"

subsection \<open>Result's constructor and Task::exec (threadpool.cpp, lines 216-222, 260-263)\<close>

text \<open>
  \<^verbatim>\<open>Result::Result(task, isValid)\<close> at the address \<open>this\<close>: the members are
  initialised (\<^verbatim>\<open>any_\<close> and \<^verbatim>\<open>sem_\<close> by their default constructors) and
  \<^verbatim>\<open>task_->setResult(this)\<close> stores the back pointer in the task. A \<open>task\<close> that is
  not on the heap is a null or dangling pointer.
\<close>

definition Result_ctor :: "result_ref \<Rightarrow> task_ref \<Rightarrow> bool \<Rightarrow> process \<Rightarrow> failure + process" where
  "Result_ctor this tk valid s =
     (case task_heap s tk of
        None \<Rightarrow> Inl Undefined_behaviour
      | Some t \<Rightarrow>
          Inr (s\<lparr>result_heap := (result_heap s)(this \<mapsto>
                    \<lparr>any = Any_default, sem = Semaphore_ctor 0, task = tk, isValid = valid\<rparr>),
                 task_heap := (task_heap s)(tk \<mapsto> t\<lparr>result := Some this\<rparr>)\<rparr>))"

text \<open>
  \<^verbatim>\<open>Task::exec\<close>: \<^verbatim>\<open>if(result_ != nullptr) result_->setVal(run());\<close>. The call of
  \<^verbatim>\<open>run()\<close> is recorded in \<open>run_log\<close>.
\<close>

definition Task_exec :: "task_ref \<Rightarrow> process \<Rightarrow> failure + process" where
  "Task_exec tk s =
     (case task_heap s tk of
        None \<Rightarrow> Inl Undefined_behaviour
      | Some t \<Rightarrow>
          (case result t of
             None \<Rightarrow> Inr s
           | Some r \<Rightarrow>
               (case result_heap s r of
                  None \<Rightarrow> Inl Undefined_behaviour
                | Some res \<Rightarrow>
                    Inr (s\<lparr>run_log := run_log s @ [tk],
                           result_heap := (result_heap s)(r \<mapsto> Result_setVal res (run_returns t))\<rparr>))))"

subsection \<open>ThreadPool: constructor and setters (threadpool.cpp, lines 5-53)\<close>

definition TASK_MAX_THRESHHOLD :: "64 word" where
  "TASK_MAX_THRESHHOLD = 2147483647"

definition THREAD_MAX_THRESHHOLD :: "64 word" where
  "THREAD_MAX_THRESHHOLD = 100"

definition THREAD_MAX_IDLE_TIME :: int where
  "THREAD_MAX_IDLE_TIME = 60"

text \<open>
  The process right after the constructor of its pool: the user's tasks \<open>ts\<close> on the
  heap, no result yet, \<^verbatim>\<open>Thread::generateId_ = 0\<close> (line 235), no worker.
\<close>

definition ThreadPool_ctor :: "(task_ref \<rightharpoonup> Task) \<Rightarrow> process" where
  "ThreadPool_ctor ts =
     \<lparr>threads = [], initThreadSize = 0, idleThreadSize = 0, curThreadSize = 0,
      threadSizeThreshHold = THREAD_MAX_THRESHHOLD, taskQue = [], taskSize = 0,
      taskQueMaxThreshHold = TASK_MAX_THRESHHOLD, poolMode = MODE_FIXED,
      isPoolRunning = False, generateId = 0, task_heap = ts, result_heap = Map.empty,
      local_task = Map.empty, spawned = [], run_log = [], cerr = []\<rparr>"

definition chackRunningState :: "process \<Rightarrow> bool" where
  "chackRunningState s = isPoolRunning s"

definition setTaskQueMaxThreshHold :: "int \<Rightarrow> process \<Rightarrow> process" where
  "setTaskQueMaxThreshHold threshhold s =
     (if chackRunningState s then s
      else s\<lparr>taskQueMaxThreshHold := word_of_int threshhold\<rparr>)"

definition setThreadSizeThreshHold :: "int \<Rightarrow> process \<Rightarrow> process" where
  "setThreadSizeThreshHold threshhold s =
     (if chackRunningState s then s
      else if poolMode s = MODE_CACHED
           then s\<lparr>threadSizeThreshHold := word_of_int threshhold\<rparr>
           else s)"

definition setMode :: "PoolMode \<Rightarrow> process \<Rightarrow> process" where
  "setMode mode s = (if chackRunningState s then s else s\<lparr>poolMode := mode\<rparr>)"

subsection \<open>Waiting on a condition variable\<close>

text \<open>
  What a thread sees while it sleeps in a timed wait: the state of the process after each
  wake-up (the other threads have run in between), the last wake-up being the timeout.
\<close>

datatype 'a window = Timeout 'a | Notified 'a "'a window"

fun window_states :: "'a window \<Rightarrow> 'a list" where
  "window_states (Timeout s) = [s]"
| "window_states (Notified s w) = s # window_states w"

text \<open>
  \<^verbatim>\<open>std::condition_variable::wait_for(lock, rel_time, pred)\<close>, which the standard
  defines as \<^verbatim>\<open>while (!pred()) if (wait_until(lock, t) == cv_status::timeout) return pred();
  return true;\<close>. It returns the value of the predicate and the state it was read in.
\<close>

fun wait_for :: "('a \<Rightarrow> bool) \<Rightarrow> 'a \<Rightarrow> 'a window \<Rightarrow> bool \<times> 'a" where
  "wait_for pred s (Timeout s') = (if pred s then (True, s) else (pred s', s'))"
| "wait_for pred s (Notified s' w) = (if pred s then (True, s) else wait_for pred s' w)"

subsection \<open>ThreadPool::submitTask (threadpool.cpp, lines 56-96)\<close>

text \<open>The predicate of line 64: \<^verbatim>\<open>taskQue_.size() < taskQueMaxThreshHold_\<close>.\<close>

definition notFull_pred :: "process \<Rightarrow> bool" where
  "notFull_pred s = (length (taskQue s) < unat (taskQueMaxThreshHold s))"

text \<open>Lines 79-81: the condition under which a worker is added.\<close>

definition needs_new_thread :: "process \<Rightarrow> bool" where
  "needs_new_thread s =
     (taskSize s > idleThreadSize s
      \<and> poolMode s = MODE_CACHED
      \<and> ucast (curThreadSize s) < threadSizeThreshHold s)"

text \<open>
  Lines 83-91: a \<^verbatim>\<open>Thread\<close> is made, inserted under its id, the entry under that id
  is started and both counters go up.
\<close>

definition add_thread :: "process \<Rightarrow> failure + process" where
  "add_thread s =
     (let (ptr, s1) = Thread_ctor s;
          tid = threadId ptr;
          s2 = s1\<lparr>threads := umap_insert (tid, ptr) (threads s1)\<rparr>
      in case map_of (threads s2) tid of
           None \<Rightarrow> Inl Undefined_behaviour
         | Some t \<Rightarrow>
             Inr ((Thread_start t s2)\<lparr>curThreadSize := curThreadSize s2 + 1,
                                       idleThreadSize := idleThreadSize s2 + 1\<rparr>))"

text \<open>
  \<open>submitTask sp this w s\<close>: the caller submits the task at \<open>sp\<close>, the returned
  \<^verbatim>\<open>Result\<close> is built at the address \<open>this\<close>, and \<open>w\<close> is what the caller
  sees while it waits for room in the queue. The whole body runs under the lock.
\<close>

definition submitTask ::
  "task_ref \<Rightarrow> result_ref \<Rightarrow> process window \<Rightarrow> process \<Rightarrow> failure + (result_ref \<times> process)" where
  "submitTask sp this w s =
     (case wait_for notFull_pred s w of
        (False, s1) \<Rightarrow>
          (case Result_ctor this sp False
                  (s1\<lparr>cerr := cerr s1 @ [''task queue is full, submit task fail.'']\<rparr>) of
             Inl e \<Rightarrow> Inl e
           | Inr s2 \<Rightarrow> Inr (this, s2))
      | (True, s1) \<Rightarrow>
          (let s2 = s1\<lparr>taskQue := taskQue s1 @ [sp], taskSize := taskSize s1 + 1\<rparr>
           in case (if needs_new_thread s2 then add_thread s2 else Inr s2) of
                Inl e \<Rightarrow> Inl e
              | Inr s3 \<Rightarrow>
                  (case Result_ctor this sp True s3 of
                     Inl e \<Rightarrow> Inl e
                   | Inr s4 \<Rightarrow> Inr (this, s4))))"

subsection \<open>ThreadPool::start (threadpool.cpp, lines 99-124)\<close>

text \<open>The first loop, \<open>n\<close> iterations to go: a thread object is made and registered.\<close>

fun start_create :: "nat \<Rightarrow> process \<Rightarrow> process" where
  "start_create 0 s = s"
| "start_create (Suc n) s =
     (let (ptr, s1) = Thread_ctor s
      in start_create n
           (s1\<lparr>threads := umap_insert (threadId ptr, ptr) (threads s1),
               curThreadSize := curThreadSize s1 + 1\<rparr>))"

text \<open>
  The second loop at index \<open>i\<close>, \<open>n\<close> iterations to go: \<^verbatim>\<open>threads_[i]->start()\<close>.
  For a key that is missing \<^verbatim>\<open>operator[]\<close> makes a null entry, which is then
  dereferenced.
\<close>

fun start_launch :: "int \<Rightarrow> nat \<Rightarrow> process \<Rightarrow> failure + process" where
  "start_launch i 0 s = Inr s"
| "start_launch i (Suc n) s =
     (case map_of (threads s) i of
        None \<Rightarrow> Inl Undefined_behaviour
      | Some t \<Rightarrow>
          start_launch (i + 1) n
            ((Thread_start t s)\<lparr>idleThreadSize := idleThreadSize s + 1\<rparr>))"

definition ThreadPool_start :: "int \<Rightarrow> process \<Rightarrow> failure + process" where
  "ThreadPool_start n s =
     (let s1 = s\<lparr>isPoolRunning := True, initThreadSize := n\<rparr>
      in start_launch 0 (nat (initThreadSize s1)) (start_create (nat (initThreadSize s1)) s1))"

subsection \<open>ThreadPool::threadFunc (threadpool.cpp, lines 127-206)\<close>

text \<open>Lines 155-157: the worker \<open>tid\<close> retires after idling.\<close>

definition threadFunc_reap :: "int \<Rightarrow> process \<Rightarrow> process" where
  "threadFunc_reap tid s =
     s\<lparr>threads := umap_erase tid (threads s),
       curThreadSize := curThreadSize s - 1,
       idleThreadSize := idleThreadSize s - 1\<rparr>"

text \<open>Lines 173 and 204: the worker \<open>tid\<close> leaves because the pool is shutting down.\<close>

definition threadFunc_exit :: "int \<Rightarrow> process \<Rightarrow> process" where
  "threadFunc_exit tid s = s\<lparr>threads := umap_erase tid (threads s)\<rparr>"

text \<open>
  Lines 178-183, reached with a queue that is not empty: the front task goes into the
  worker's local variable. \<open>None\<close> on an empty queue, where the worker is still in the
  loop of line 137.
\<close>

definition threadFunc_take :: "int \<Rightarrow> process \<Rightarrow> (task_ref \<times> process) option" where
  "threadFunc_take tid s =
     (case taskQue s of
        [] \<Rightarrow> None
      | front # rest \<Rightarrow>
          Some (front,
                s\<lparr>idleThreadSize := idleThreadSize s - 1,
                  local_task := (local_task s)(tid \<mapsto> front),
                  taskQue := rest,
                  taskSize := taskSize s - 1\<rparr>))"

text \<open>
  Lines 194-201, outside the lock: the task in the local variable is executed, the idle
  count goes up, and the local variable ends with the iteration.
\<close>

definition threadFunc_run :: "int \<Rightarrow> process \<Rightarrow> failure + process" where
  "threadFunc_run tid s =
     (case local_task s tid of
        None \<Rightarrow> Inr (s\<lparr>idleThreadSize := idleThreadSize s + 1\<rparr>)
      | Some tk \<Rightarrow>
          (case Task_exec tk s of
             Inl e \<Rightarrow> Inl e
           | Inr s1 \<Rightarrow>
               Inr (s1\<lparr>idleThreadSize := idleThreadSize s1 + 1,
                       local_task := (local_task s1)(tid := None)\<rparr>)))"

text \<open>
  The loop of lines 137-177. A wake-up of the worker: what the wait returned, the whole
  seconds since \<^verbatim>\<open>lastTime\<close>, and the state of the process at that moment.
\<close>

datatype cv_status = no_timeout | timeout

datatype wake = Wake cv_status int process

datatype waited = Proceed process | Exited process | Blocked process

fun threadFunc_wait :: "int \<Rightarrow> process \<Rightarrow> wake list \<Rightarrow> waited" where
  "threadFunc_wait tid s [] = (if length (taskQue s) = 0 then Blocked s else Proceed s)"
| "threadFunc_wait tid s (Wake st dur s' # ws) =
     (if length (taskQue s) \<noteq> 0 then Proceed s
      else if poolMode s = MODE_CACHED \<and> st = timeout
              \<and> dur \<ge> THREAD_MAX_IDLE_TIME
              \<and> curThreadSize s' > word_of_int (initThreadSize s')
           then Exited (threadFunc_reap tid s')
      else if isPoolRunning s' = False then Exited (threadFunc_exit tid s')
      else threadFunc_wait tid s' ws)"

text \<open>
  One iteration of the loop of line 129 for a worker that nothing interrupts between its
  critical section and the end of the iteration.
\<close>

datatype iteration = Continue process | Stopped process | Asleep process | Failed failure

definition threadFunc_iteration :: "int \<Rightarrow> wake list \<Rightarrow> process \<Rightarrow> iteration" where
  "threadFunc_iteration tid ws s =
     (if isPoolRunning s = False then Stopped (threadFunc_exit tid s)
      else (case threadFunc_wait tid s ws of
              Blocked s1 \<Rightarrow> Asleep s1
            | Exited s1 \<Rightarrow> Stopped s1
            | Proceed s1 \<Rightarrow>
                (case threadFunc_take tid s1 of
                   None \<Rightarrow> Asleep s1
                 | Some (tk, s2) \<Rightarrow>
                     (case threadFunc_run tid s2 of
                        Inl e \<Rightarrow> Failed e
                      | Inr s3 \<Rightarrow> Continue s3))))"

subsection \<open>The destructor (threadpool.cpp, lines 21-29)\<close>

text \<open>Line 23, and the wait of line 28 (\<open>None\<close> while a worker is registered).\<close>

definition ThreadPool_dtor_begin :: "process \<Rightarrow> process" where
  "ThreadPool_dtor_begin s = s\<lparr>isPoolRunning := False\<rparr>"

definition ThreadPool_dtor_wait :: "process \<Rightarrow> process option" where
  "ThreadPool_dtor_wait s = (if length (threads s) = 0 then Some s else None)"

subsection \<open>Runs of the process\<close>

text \<open>
  The steps the threads of the process take, each atomic: a call of the pool's interface
  by a user thread, or a part of \<^verbatim>\<open>threadFunc\<close> by the worker with the given id. A
  step whose thread cannot take it in the current state (a worker that finds the queue
  empty, a worker that is gone) leaves the state as it is. A submission is the part of the
  call after its wait: whatever the other threads do during the wait are steps before it.
\<close>

datatype step =
    Call_setTaskQueMaxThreshHold int
  | Call_setThreadSizeThreshHold int
  | Call_setMode PoolMode
  | Call_start int
  | Call_submitTask task_ref result_ref
  | Call_destructor
  | Worker_take int
  | Worker_run int
  | Worker_reap int
  | Worker_exit int

definition is_worker :: "int \<Rightarrow> process \<Rightarrow> bool" where
  "is_worker tid s = (map_of (threads s) tid \<noteq> None)"

fun do_step :: "step \<Rightarrow> process \<Rightarrow> failure + process" where
  "do_step (Call_setTaskQueMaxThreshHold n) s = Inr (setTaskQueMaxThreshHold n s)"
| "do_step (Call_setThreadSizeThreshHold n) s = Inr (setThreadSizeThreshHold n s)"
| "do_step (Call_setMode m) s = Inr (setMode m s)"
| "do_step (Call_start n) s = ThreadPool_start n s"
| "do_step (Call_submitTask sp this) s =
     (case submitTask sp this (Timeout s) s of Inl e \<Rightarrow> Inl e | Inr (r, s') \<Rightarrow> Inr s')"
| "do_step Call_destructor s = Inr (ThreadPool_dtor_begin s)"
| "do_step (Worker_take tid) s =
     (if is_worker tid s \<and> local_task s tid = None
      then (case threadFunc_take tid s of None \<Rightarrow> Inr s | Some (tk, s') \<Rightarrow> Inr s')
      else Inr s)"
| "do_step (Worker_run tid) s =
     (if is_worker tid s \<and> local_task s tid \<noteq> None then threadFunc_run tid s else Inr s)"
| "do_step (Worker_reap tid) s =
     (if is_worker tid s \<and> local_task s tid = None \<and> length (taskQue s) = 0
         \<and> poolMode s = MODE_CACHED
         \<and> curThreadSize s > word_of_int (initThreadSize s)
      then Inr (threadFunc_reap tid s) else Inr s)"
| "do_step (Worker_exit tid) s =
     (if is_worker tid s \<and> local_task s tid = None \<and> isPoolRunning s = False
      then Inr (threadFunc_exit tid s) else Inr s)"

fun run :: "step list \<Rightarrow> process \<Rightarrow> failure + process" where
  "run [] s = Inr s"
| "run (x # xs) s = (case do_step x s of Inl e \<Rightarrow> Inl e | Inr s' \<Rightarrow> run xs s')"

text \<open>
  What a run does to the queue, in order: a task is enqueued by a submission that returns
  a valid \<^verbatim>\<open>Result\<close>, and dequeued by a worker.
\<close>

datatype event = Enqueued task_ref | Dequeued task_ref

fun observe :: "step \<Rightarrow> process \<Rightarrow> event list" where
  "observe (Call_submitTask sp this) s =
     (case submitTask sp this (Timeout s) s of
        Inl e \<Rightarrow> []
      | Inr (r, s') \<Rightarrow>
          (case result_heap s' r of
             None \<Rightarrow> []
           | Some res \<Rightarrow> if isValid res then [Enqueued sp] else []))"
| "observe (Worker_take tid) s =
     (if is_worker tid s \<and> local_task s tid = None
      then (case threadFunc_take tid s of None \<Rightarrow> [] | Some (tk, s') \<Rightarrow> [Dequeued tk])
      else [])"
| "observe _ s = []"

fun events :: "step list \<Rightarrow> process \<Rightarrow> event list" where
  "events [] s = []"
| "events (x # xs) s =
     observe x s @ (case do_step x s of Inl e \<Rightarrow> [] | Inr s' \<Rightarrow> events xs s')"

fun enqueued :: "event list \<Rightarrow> task_ref list" where
  "enqueued [] = []"
| "enqueued (Enqueued tk # es) = tk # enqueued es"
| "enqueued (Dequeued tk # es) = enqueued es"

fun dequeued :: "event list \<Rightarrow> task_ref list" where
  "dequeued [] = []"
| "dequeued (Enqueued tk # es) = dequeued es"
| "dequeued (Dequeued tk # es) = tk # dequeued es"

text \<open>The worker a step belongs to.\<close>

fun worker_of :: "step \<Rightarrow> int option" where
  "worker_of (Worker_take tid) = Some tid"
| "worker_of (Worker_run tid) = Some tid"
| "worker_of (Worker_reap tid) = Some tid"
| "worker_of (Worker_exit tid) = Some tid"
| "worker_of _ = None"

text \<open>What is read off the outcome of a run.\<close>

definition after :: "('s \<Rightarrow> 'a) \<Rightarrow> failure + 's \<Rightarrow> 'a option" where
  "after f r = (case r of Inl e \<Rightarrow> None | Inr s \<Rightarrow> Some (f s))"

subsection \<open>Auxiliary notions for the proofs\<close>

text \<open>What a step leaves alone: the queue with its counter and bound, and the tasks.\<close>

definition same_queue :: "process \<Rightarrow> process \<Rightarrow> bool" where
  "same_queue s s' =
     (taskQue s' = taskQue s \<and> taskSize s' = taskSize s
      \<and> taskQueMaxThreshHold s' = taskQueMaxThreshHold s)"

definition same_tasks :: "process \<Rightarrow> process \<Rightarrow> bool" where
  "same_tasks s s' =
     (task_heap s' = task_heap s \<and> local_task s' = local_task s \<and> run_log s' = run_log s)"

text \<open>The task the worker \<open>w\<close> has taken from the queue and not yet executed.\<close>

definition held :: "int \<Rightarrow> process \<Rightarrow> task_ref list" where
  "held w s = (case local_task s w of None \<Rightarrow> [] | Some tk \<Rightarrow> [tk])"

subsection \<open>The invariants the specification states\<close>

text \<open>The pending count is the length of the queue, which is within the configured bound.\<close>

definition queue_inv :: "process \<Rightarrow> bool" where
  "queue_inv s =
     (unat (taskSize s) = length (taskQue s)
      \<and> length (taskQue s) \<le> unat (taskQueMaxThreshHold s))"

text \<open>The registry has as many entries as the current count says, and no more workers
  are idle than there are.\<close>

definition registry_inv :: "process \<Rightarrow> bool" where
  "registry_inv s =
     (length (threads s) = unat (curThreadSize s)
      \<and> idleThreadSize s \<le> curThreadSize s)"

subsection \<open>Concrete states for the checks below\<close>

text \<open>
  A process with one task at address 0 whose \<^verbatim>\<open>run()\<close> returns 7, and one valid result
  at address 5. The task is bound to that result, or to none.
\<close>

definition one_task :: "bool \<Rightarrow> process" where
  "one_task bound =
     (ThreadPool_ctor
        [0 \<mapsto> \<lparr>result = (if bound then Some 5 else None), run_returns = Any_ctor (CInt 7)\<rparr>])
     \<lparr>result_heap :=
        [5 \<mapsto> \<lparr>any = Any_default, sem = Semaphore_ctor 0, task = 0, isValid = True\<rparr>]\<rparr>"

text \<open>The result of a rejected submission, as \<^verbatim>\<open>Result(sp, false)\<close> builds it.\<close>

definition rejected_result :: Result where
  "rejected_result = \<lparr>any = Any_default, sem = Semaphore_ctor 0, task = 0, isValid = False\<rparr>"

text \<open>Two tasks at the addresses 0 and 1, bound to no result yet.\<close>

definition two_tasks :: "task_ref \<rightharpoonup> Task" where
  "two_tasks = [0 \<mapsto> \<lparr>result = None, run_returns = Any_ctor (CInt 7)\<rparr>,
                1 \<mapsto> \<lparr>result = None, run_returns = Any_ctor (CInt 8)\<rparr>]"

text \<open>
  A pool in fixed mode with room for one task and one worker, after task 0 was
  submitted: the queue is full. Then the same pool after the worker has taken the task.
\<close>

definition full_queue :: process where
  "full_queue =
     (ThreadPool_ctor two_tasks)
     \<lparr>threads := [(0, \<lparr>threadId = 0\<rparr>)], initThreadSize := 1, idleThreadSize := 1,
      curThreadSize := 1, taskQue := [0], taskSize := 1, taskQueMaxThreshHold := 1,
      isPoolRunning := True, generateId := 1,
      task_heap := two_tasks(0 \<mapsto> \<lparr>result = Some 10, run_returns = Any_ctor (CInt 7)\<rparr>),
      result_heap :=
        [10 \<mapsto> \<lparr>any = Any_default, sem = Semaphore_ctor 0, task = 0, isValid = True\<rparr>],
      spawned := [0]\<rparr>"

definition queue_drained :: process where
  "queue_drained =
     full_queue\<lparr>idleThreadSize := 0, taskQue := [], taskSize := 0, local_task := [0 \<mapsto> 0]\<rparr>"

text \<open>
  A pool in cached mode with a threshold of two workers and one initial worker, after
  task 0 was submitted.
\<close>

definition cached_pool :: process where
  "cached_pool =
     full_queue\<lparr>poolMode := MODE_CACHED, threadSizeThreshHold := 2,
                taskQueMaxThreshHold := TASK_MAX_THRESHHOLD\<rparr>"

text \<open>A run with one worker and two tasks.\<close>

definition two_jobs :: "step list" where
  "two_jobs = [Call_start 1, Call_submitTask 0 10, Call_submitTask 1 11,
               Worker_take 0, Worker_run 0, Worker_take 0, Worker_run 0]"

section \<open>Theorems\<close>

subsection \<open>Evaluation\<close>

text \<open>The definitions a concrete run is evaluated with.\<close>

lemmas eval_defs = after_def ThreadPool_ctor_def two_tasks_def
      setTaskQueMaxThreshHold_def setThreadSizeThreshHold_def setMode_def chackRunningState_def
      ThreadPool_start_def Thread_ctor_def Thread_start_def umap_insert_def umap_erase_def
      submitTask_def notFull_pred_def needs_new_thread_def add_thread_def Result_ctor_def
      is_worker_def threadFunc_take_def threadFunc_run_def threadFunc_reap_def
      threadFunc_exit_def Task_exec_def Result_setVal_def Semaphore_post_def Semaphore_ctor_def
      ThreadPool_dtor_begin_def held_def
      TASK_MAX_THRESHHOLD_def THREAD_MAX_THRESHHOLD_def

subsection \<open>Semaphore\<close>

text \<open>
  \<^verbatim>\<open>wait()\<close> goes on exactly when the count is positive and takes one off,
  \<^verbatim>\<open>post()\<close> adds one, and a count that is not negative stays so.
\<close>

lemma Semaphore_wait_post:
  "(Semaphore_wait s = None) = (resLimit s \<le> 0)
   \<and> (0 < resLimit s \<longrightarrow> map_option resLimit (Semaphore_wait s) = Some (resLimit s - 1))
   \<and> resLimit (Semaphore_post s) = resLimit s + 1
   \<and> Semaphore_wait (Semaphore_post (Semaphore_ctor limit)) = Some (Semaphore_ctor limit)"
  by (auto simp add: Semaphore_wait_def Semaphore_post_def Semaphore_ctor_def)

lemma Semaphore_count_not_negative:
  "0 \<le> resLimit s \<Longrightarrow>
     0 \<le> resLimit (Semaphore_post s)
     \<and> (\<forall>s'. Semaphore_wait s = Some s' \<longrightarrow> 0 \<le> resLimit s')"
  by (auto simp add: Semaphore_wait_def Semaphore_post_def split: if_splits)

text \<open>
  C9, checked at the input \<^verbatim>\<open>Semaphore(1)\<close>: the constructor ignores its argument, the
  count starts at 0 and a first \<^verbatim>\<open>wait()\<close> blocks.
\<close>

theorem Semaphore_ctor_ignores_limit:
  "resLimit (Semaphore_ctor 1) = 0 \<and> Semaphore_wait (Semaphore_ctor 1) = None"
  by (simp add: Semaphore_ctor_def Semaphore_wait_def)

subsection \<open>Any\<close>

text \<open>
  C7. The cast itself is as the claim says: on a \<^verbatim>\<open>Derive<T>\<close> object it returns the
  stored value for the type \<open>T\<close> and throws for every other type.
\<close>

lemma Any_cast_Derive:
  "Any_cast T \<lparr>base = Some (Derive_obj v)\<rparr> =
     (if type_of v = T then Inr v else Inl (Thrown ''type is unmatch!''))"
  by (simp add: Any_cast_def)

lemma Any_cast_default: "Any_cast T Any_default = Inl (Thrown ''type is unmatch!'')"
  by (simp add: Any_cast_def Any_default_def)

text \<open>
  C7, on the code: the constructor of line 34 never makes a \<^verbatim>\<open>Derive<T>\<close>, so the cast
  of a container to the type of the value it was built from throws as well. The round
  trip of the claim fails for every value, for instance for \<^verbatim>\<open>Any(5).cast<int>()\<close>.
\<close>

theorem Any_cast_after_ctor_throws:
  "Any_cast T (Any_ctor v) = Inl (Thrown ''type is unmatch!'')"
  by (simp add: Any_cast_def Any_ctor_def)

subsection \<open>Result::get\<close>

text \<open>
  A valid handle: \<^verbatim>\<open>get()\<close> blocks while nothing was delivered, and after
  \<^verbatim>\<open>setVal\<close> it returns the delivered value.
\<close>

lemma Result_get_valid:
  "isValid r \<Longrightarrow> sem r = Semaphore_ctor 0 \<Longrightarrow>
     Result_get r = None
     \<and> map_option fst (Result_get (Result_setVal r a)) = Some a"
  by (simp add: Result_get_def Result_setVal_def Semaphore_wait_def Semaphore_post_def
      Semaphore_ctor_def)

text \<open>
  C2 as stated fails: what \<^verbatim>\<open>get()\<close> returns for an invalid handle is not the empty
  container. Its pointer is not null: it holds the string literal.
\<close>

theorem Result_get_invalid_not_empty:
  "map_option (base \<circ> fst) (Result_get rejected_result) = Some (Some (Plain_obj (CCharPtr '''')))
   \<and> map_option fst (Result_get rejected_result) \<noteq> Some Any_default"
  by (simp add: Result_get_def rejected_result_def Any_ctor_def Any_default_def)

text \<open>
  C2, amended: for a handle whose validity flag is false, \<^verbatim>\<open>get()\<close> returns at once,
  whatever the count of the semaphore, leaves the handle (its semaphore included) as it
  was, and the value returned is the container built from the empty string literal.
\<close>

theorem Result_get_invalid:
  "isValid r = False \<Longrightarrow> Result_get r = Some (Any_ctor (CCharPtr ''''), r)"
  by (simp add: Result_get_def)

text \<open>C2, amended, at the handle of a rejected submission, whose semaphore counts 0.\<close>

theorem Result_get_invalid_witness:
  "isValid rejected_result = False
   \<and> resLimit (sem rejected_result) = 0
   \<and> Result_get rejected_result = Some (Any_ctor (CCharPtr ''''), rejected_result)"
proof -
  have h: "isValid rejected_result = False"
    by (simp add: rejected_result_def)
  have z: "resLimit (sem rejected_result) = 0"
    by (simp add: rejected_result_def Semaphore_ctor_def)
  from h z Result_get_invalid [OF h] show ?thesis by blast
qed

subsection \<open>Task::exec\<close>

text \<open>
  C8 as stated fails: on a task with no result bound, \<^verbatim>\<open>exec\<close> does not call
  \<^verbatim>\<open>run()\<close> at all. The log of calls stays empty and the state is unchanged.
\<close>

theorem Task_exec_unbound_does_not_run:
  "after run_log (Task_exec 0 (one_task False)) = Some []
   \<and> Task_exec 0 (one_task False) = Inr (one_task False)"
  by (simp add: after_def Task_exec_def one_task_def ThreadPool_ctor_def)

text \<open>
  C8, amended: \<^verbatim>\<open>exec\<close> on a task that is bound to a (live) result calls \<^verbatim>\<open>run()\<close>
  once and hands what it returns to that result with \<^verbatim>\<open>setVal\<close>; on a task bound to
  no result it does nothing: \<^verbatim>\<open>run()\<close> is not called.
\<close>

theorem Task_exec_delivers_or_skips:
  "task_heap s tk = Some t \<Longrightarrow>
     (\<forall>r res. result t = Some r \<and> result_heap s r = Some res \<longrightarrow>
        Task_exec tk s =
          Inr (s\<lparr>run_log := run_log s @ [tk],
                 result_heap := (result_heap s)(r \<mapsto> Result_setVal res (run_returns t))\<rparr>))
     \<and> (result t = None \<longrightarrow> Task_exec tk s = Inr s)"
  by (simp add: Task_exec_def)

text \<open>
  C8, amended, at concrete states: the bound task is run once, its value 7 is in the
  result and the semaphore counts 1; the unbound task leaves the state as it was.
\<close>

theorem Task_exec_delivers_or_skips_witness:
  "after run_log (Task_exec 0 (one_task True)) = Some [0]
   \<and> after (\<lambda>s. map_option any (result_heap s 5)) (Task_exec 0 (one_task True))
       = Some (Some (Any_ctor (CInt 7)))
   \<and> after (\<lambda>s. map_option (resLimit \<circ> sem) (result_heap s 5)) (Task_exec 0 (one_task True))
       = Some (Some 1)
   \<and> Task_exec 0 (one_task False) = Inr (one_task False)"
proof -
  let ?t = "\<lambda>b. \<lparr>result = (if b then Some 5 else None), run_returns = Any_ctor (CInt 7)\<rparr>"
  have h: "task_heap (one_task b) 0 = Some (?t b)" for b
    by (simp add: one_task_def ThreadPool_ctor_def)
  from Task_exec_delivers_or_skips [OF h [of True]] Task_exec_delivers_or_skips [OF h [of False]]
  show ?thesis
    by (simp add: after_def one_task_def ThreadPool_ctor_def Result_setVal_def
        Semaphore_post_def Semaphore_ctor_def)
qed

subsection \<open>The setter of the worker threshold\<close>

text \<open>
  C10. On a pool that is not running, \<^verbatim>\<open>setThreadSizeThreshHold(t)\<close> stores \<open>t\<close>
  (converted to \<^verbatim>\<open>size_t\<close>) when the mode is cached and changes nothing when it is fixed;
  so a threshold set in fixed mode is still the old one after the mode is switched to
  cached. For an argument that is not negative the stored threshold is \<open>t\<close> itself.
\<close>

theorem setThreadSizeThreshHold_only_in_cached_mode:
  "isPoolRunning s = False \<Longrightarrow>
     setThreadSizeThreshHold t s =
       (if poolMode s = MODE_CACHED then s\<lparr>threadSizeThreshHold := word_of_int t\<rparr> else s)
     \<and> (poolMode s = MODE_FIXED \<longrightarrow>
          threadSizeThreshHold (setMode MODE_CACHED (setThreadSizeThreshHold t s))
            = threadSizeThreshHold s)
     \<and> (poolMode s = MODE_CACHED \<and> 0 \<le> t \<and> t \<le> 2147483647 \<longrightarrow>
          uint (threadSizeThreshHold (setThreadSizeThreshHold t s)) = t)"
  by (simp add: setThreadSizeThreshHold_def chackRunningState_def setMode_def uint_word_of_int)

text \<open>
  C10 on a new pool: in fixed mode the threshold stays 100, also after the switch to
  cached mode; set after the switch, it is 4.
\<close>

theorem setThreadSizeThreshHold_only_in_cached_mode_witness:
  "isPoolRunning (ThreadPool_ctor Map.empty) = False
   \<and> poolMode (ThreadPool_ctor Map.empty) = MODE_FIXED
   \<and> setThreadSizeThreshHold 4 (ThreadPool_ctor Map.empty) = ThreadPool_ctor Map.empty
   \<and> threadSizeThreshHold
        (setMode MODE_CACHED (setThreadSizeThreshHold 4 (ThreadPool_ctor Map.empty))) = 100
   \<and> poolMode (setMode MODE_CACHED (ThreadPool_ctor Map.empty)) = MODE_CACHED
   \<and> uint (threadSizeThreshHold
        (setThreadSizeThreshHold 4 (setMode MODE_CACHED (ThreadPool_ctor Map.empty)))) = 4"
proof -
  let ?s = "ThreadPool_ctor Map.empty"
  let ?c = "setMode MODE_CACHED ?s"
  have r: "isPoolRunning ?s = False" and f: "poolMode ?s = MODE_FIXED"
    and d: "threadSizeThreshHold ?s = 100"
    by (simp_all add: ThreadPool_ctor_def THREAD_MAX_THRESHHOLD_def)
  have rc: "isPoolRunning ?c = False" and c: "poolMode ?c = MODE_CACHED"
    by (simp_all add: setMode_def chackRunningState_def ThreadPool_ctor_def)
  note a = setThreadSizeThreshHold_only_in_cached_mode [OF r, of 4]
  note b = setThreadSizeThreshHold_only_in_cached_mode [OF rc, of 4]
  have 1: "setThreadSizeThreshHold 4 ?s = ?s" using a f by simp
  have "threadSizeThreshHold (setMode MODE_CACHED (setThreadSizeThreshHold 4 ?s))
          = threadSizeThreshHold ?s"
    using a f by blast
  then have 2: "threadSizeThreshHold (setMode MODE_CACHED (setThreadSizeThreshHold 4 ?s)) = 100"
    using d by simp
  have 3: "uint (threadSizeThreshHold (setThreadSizeThreshHold 4 ?c)) = 4"
    using b c by simp
  from r f 1 2 c 3 show ?thesis by blast
qed

subsection \<open>submitTask\<close>

text \<open>
  The timed wait returns the first state, among the one it starts in and those of the
  wake-ups, in which the predicate holds; if there is none, it returns false in the state
  of the timeout.
\<close>

lemma window_states_not_Nil: "window_states w \<noteq> []"
  by (cases w) simp_all

lemma wait_for_find:
  "wait_for pred s w =
     (case find pred (s # window_states w) of
        Some x \<Rightarrow> (True, x)
      | None \<Rightarrow> (False, last (window_states w)))"
  by (induction w arbitrary: s) (auto simp add: window_states_not_Nil split: option.splits)

text \<open>A new worker: the registry finds the entry it has just inserted.\<close>

lemma map_of_umap_insert_same:
  "map_of (umap_insert (k, v) m) k \<noteq> None"
  by (cases "map_of m k") (simp_all add: umap_insert_def map_add_def)


text \<open>Adding a worker always succeeds and touches neither the queue nor the heaps.\<close>

lemma add_thread_frame:
  "\<exists>s'. add_thread s = Inr s' \<and> same_queue s s' \<and> same_tasks s s'
        \<and> result_heap s' = result_heap s"
  using map_of_umap_insert_same [of "generateId s" "\<lparr>threadId = generateId s\<rparr>" "threads s"]
  by (auto simp add: add_thread_def Thread_ctor_def Thread_start_def Let_def same_queue_def
      same_tasks_def split: option.splits)

text \<open>
  C1. The task at \<open>sp\<close> is on the heap. If the queue is full when the call starts and
  at every wake-up of its one-second wait, the timeout included, the call returns the
  handle at \<open>this\<close>, built invalid and bound to the task (each points to the other), and
  the queue and the pending count are those of the state at the timeout: the call has
  changed neither, and has written its message to \<^verbatim>\<open>std::cerr\<close>. If there is room in the state \<open>s1\<close>, the first of these states with
  room, the call returns the handle built valid and bound to the task, the task is at the
  end of the queue of \<open>s1\<close> and the pending count is one more.
\<close>

theorem submitTask_rejects_or_enqueues:
  "((\<forall>x \<in> set (s # window_states w). \<not> notFull_pred x)
      \<and> task_heap (last (window_states w)) sp = Some t \<longrightarrow>
      (\<exists>s'. submitTask sp this w s = Inr (this, s')
         \<and> taskQue s' = taskQue (last (window_states w))
         \<and> taskSize s' = taskSize (last (window_states w))
         \<and> cerr s' = cerr (last (window_states w)) @ [''task queue is full, submit task fail.'']
         \<and> result_heap s' this =
             Some \<lparr>any = Any_default, sem = Semaphore_ctor 0, task = sp, isValid = False\<rparr>
         \<and> task_heap s' sp = Some (t\<lparr>result := Some this\<rparr>)))
   \<and> (find notFull_pred (s # window_states w) = Some s1
      \<and> task_heap s1 sp = Some t \<longrightarrow>
      (\<exists>s'. submitTask sp this w s = Inr (this, s')
         \<and> taskQue s' = taskQue s1 @ [sp]
         \<and> taskSize s' = taskSize s1 + 1
         \<and> result_heap s' this =
             Some \<lparr>any = Any_default, sem = Semaphore_ctor 0, task = sp, isValid = True\<rparr>
         \<and> task_heap s' sp = Some (t\<lparr>result := Some this\<rparr>)))"
proof (intro conjI impI)
  assume a: "(\<forall>x \<in> set (s # window_states w). \<not> notFull_pred x)
      \<and> task_heap (last (window_states w)) sp = Some t"
  then have "find notFull_pred (s # window_states w) = None"
    by (simp add: find_None_iff)
  then have "wait_for notFull_pred s w = (False, last (window_states w))"
    by (simp add: wait_for_find)
  with a show "\<exists>s'. submitTask sp this w s = Inr (this, s')
         \<and> taskQue s' = taskQue (last (window_states w))
         \<and> taskSize s' = taskSize (last (window_states w))
         \<and> cerr s' = cerr (last (window_states w)) @ [''task queue is full, submit task fail.'']
         \<and> result_heap s' this =
             Some \<lparr>any = Any_default, sem = Semaphore_ctor 0, task = sp, isValid = False\<rparr>
         \<and> task_heap s' sp = Some (t\<lparr>result := Some this\<rparr>)"
    by (simp add: submitTask_def Result_ctor_def)
next
  assume b: "find notFull_pred (s # window_states w) = Some s1 \<and> task_heap s1 sp = Some t"
  then have wf: "wait_for notFull_pred s w = (True, s1)"
    by (simp add: wait_for_find)
  let ?s2 = "s1\<lparr>taskQue := taskQue s1 @ [sp], taskSize := taskSize s1 + 1\<rparr>"
  obtain s3 where s3: "(if needs_new_thread ?s2 then add_thread ?s2 else Inr ?s2) = Inr s3"
    and q: "taskQue s3 = taskQue ?s2" "taskSize s3 = taskSize ?s2"
      "task_heap s3 = task_heap ?s2" "result_heap s3 = result_heap ?s2"
    using add_thread_frame [of ?s2]
    by (cases "needs_new_thread ?s2") (auto simp add: same_queue_def same_tasks_def)
  from wf s3 q b show "\<exists>s'. submitTask sp this w s = Inr (this, s')
         \<and> taskQue s' = taskQue s1 @ [sp]
         \<and> taskSize s' = taskSize s1 + 1
         \<and> result_heap s' this =
             Some \<lparr>any = Any_default, sem = Semaphore_ctor 0, task = sp, isValid = True\<rparr>
         \<and> task_heap s' sp = Some (t\<lparr>result := Some this\<rparr>)"
    by (simp add: submitTask_def Result_ctor_def Let_def)
qed

text \<open>
  C1 at concrete states: with the queue full throughout, the submission of task 1 leaves
  the queue \<open>[0]\<close> and returns an invalid handle; when the worker has emptied the queue
  by the time of the timeout, task 1 is enqueued and the handle is valid.
\<close>

theorem submitTask_rejects_or_enqueues_witness:
  "\<not> notFull_pred full_queue
   \<and> after (taskQue \<circ> snd) (submitTask 1 11 (Timeout full_queue) full_queue) = Some [0]
   \<and> after (taskSize \<circ> snd) (submitTask 1 11 (Timeout full_queue) full_queue) = Some 1
   \<and> after (\<lambda>p. map_option isValid (result_heap (snd p) (fst p)))
        (submitTask 1 11 (Timeout full_queue) full_queue) = Some (Some False)
   \<and> notFull_pred queue_drained
   \<and> after (taskQue \<circ> snd)
        (submitTask 1 11 (Notified full_queue (Timeout queue_drained)) full_queue) = Some [1]
   \<and> after (taskSize \<circ> snd)
        (submitTask 1 11 (Notified full_queue (Timeout queue_drained)) full_queue) = Some 1
   \<and> after (\<lambda>p. map_option isValid (result_heap (snd p) (fst p)))
        (submitTask 1 11 (Notified full_queue (Timeout queue_drained)) full_queue)
       = Some (Some True)"
proof -
  let ?t = "\<lparr>result = None, run_returns = Any_ctor (CInt 8)\<rparr>"
  have nf: "\<not> notFull_pred full_queue" and nd: "notFull_pred queue_drained"
    by (simp_all add: notFull_pred_def full_queue_def queue_drained_def ThreadPool_ctor_def)
  have tf: "task_heap full_queue 1 = Some ?t" and td: "task_heap queue_drained 1 = Some ?t"
    by (simp_all add: full_queue_def queue_drained_def ThreadPool_ctor_def two_tasks_def)
  have qf: "taskQue full_queue = [0]" "taskSize full_queue = 1"
    and qd: "taskQue queue_drained = []" "taskSize queue_drained = 0"
    by (simp_all add: full_queue_def queue_drained_def ThreadPool_ctor_def)
  have a: "(\<forall>x \<in> set (full_queue # window_states (Timeout full_queue)). \<not> notFull_pred x)
      \<and> task_heap (last (window_states (Timeout full_queue))) 1 = Some ?t"
    using nf tf by simp
  have b: "find notFull_pred
             (full_queue # window_states (Notified full_queue (Timeout queue_drained)))
           = Some queue_drained \<and> task_heap queue_drained 1 = Some ?t"
    using nf nd td by simp
  from submitTask_rejects_or_enqueues
         [of full_queue "Timeout full_queue" 1 ?t 11 full_queue] a
  obtain s' where 1: "submitTask 1 11 (Timeout full_queue) full_queue = Inr (11, s')"
    "taskQue s' = [0]" "taskSize s' = 1"
    "map_option isValid (result_heap s' 11) = Some False"
    using qf by auto
  from submitTask_rejects_or_enqueues
         [of full_queue "Notified full_queue (Timeout queue_drained)" 1 ?t 11 queue_drained] b
  obtain s'' where 2:
    "submitTask 1 11 (Notified full_queue (Timeout queue_drained)) full_queue = Inr (11, s'')"
    "taskQue s'' = [1]" "taskSize s'' = 1"
    "map_option isValid (result_heap s'' 11) = Some True"
    using qd by auto
  from nf nd 1 2 show ?thesis
    by (simp add: after_def)
qed

text \<open>A 32-bit count below a 64-bit threshold stays within it when it goes up by one.\<close>

lemma uint_ucast_32_64:
  fixes c :: "32 word"
  shows "uint (ucast c :: 64 word) = uint c"
  by (rule uint_up_ucast) (simp add: is_up)

lemma ucast_succ_le:
  fixes c :: "32 word" and t :: "64 word"
  assumes "ucast c < t"
  shows "ucast (c + 1) \<le> t"
proof -
  have "uint c < uint t"
    using assms by (simp add: word_less_def uint_ucast_32_64)
  moreover have "uint (c + 1) \<le> uint c + 1"
    using uint_add_le [of c 1] by simp
  ultimately have "uint (c + 1) \<le> uint t" by simp
  then show ?thesis
    by (simp add: word_le_def uint_ucast_32_64)
qed



text \<open>
  The bound along a run: from a state whose current count is within the threshold, every
  run of submissions, worker steps, the other setters and the destructor (no
  \<^verbatim>\<open>start\<close>, no new threshold) ends with the count within the threshold.
\<close>

lemma submit_step_count:
  assumes "do_step (Call_submitTask sp this) s = Inr s'"
  shows "threadSizeThreshHold s' = threadSizeThreshHold s
       \<and> (curThreadSize s' = curThreadSize s
          \<or> (ucast (curThreadSize s) < threadSizeThreshHold s
              \<and> curThreadSize s' = curThreadSize s + 1))"
  using assms
  by (auto simp add: submitTask_def Result_ctor_def needs_new_thread_def add_thread_def
      Thread_ctor_def Thread_start_def Let_def
      split: if_splits option.splits sum.splits)

lemma word_pred_le_32:
  fixes c :: "32 word"
  shows "c \<noteq> 0 \<Longrightarrow> c - 1 \<le> c"
  by (simp add: word_le_nat_alt unat_minus_one)

lemma ucast_mono_32_64:
  fixes c d :: "32 word"
  shows "c \<le> d \<Longrightarrow> (ucast c :: 64 word) \<le> ucast d"
  by (simp add: word_le_def uint_ucast_32_64)

lemma count_within_threshold_step:
  assumes b: "ucast (curThreadSize s) \<le> threadSizeThreshHold s"
    and x: "\<forall>n. x \<noteq> Call_start n \<and> x \<noteq> Call_setThreadSizeThreshHold n"
    and step: "do_step x s = Inr s'"
  shows "ucast (curThreadSize s') \<le> threadSizeThreshHold s'"
proof (cases x)
  case (Call_setTaskQueMaxThreshHold n)
  with b step show ?thesis by (auto simp add: setTaskQueMaxThreshHold_def)
next
  case (Call_setThreadSizeThreshHold n)
  with x show ?thesis by simp
next
  case (Call_setMode m)
  with b step show ?thesis by (auto simp add: setMode_def)
next
  case (Call_start n)
  with x show ?thesis by simp
next
  case (Call_submitTask sp this)
  from submit_step_count [OF step [unfolded Call_submitTask]] b ucast_succ_le
  show ?thesis by auto
next
  case Call_destructor
  with b step show ?thesis by (auto simp add: ThreadPool_dtor_begin_def)
next
  case (Worker_take tid)
  with b step show ?thesis
    by (auto simp add: threadFunc_take_def split: if_splits list.splits)
next
  case (Worker_run tid)
  with b step show ?thesis
    by (auto simp add: threadFunc_run_def Task_exec_def split: if_splits option.splits sum.splits)
next
  case (Worker_reap tid)
  show ?thesis
  proof (cases "s' = s")
    case True
    with b show ?thesis by simp
  next
    case False
    with step Worker_reap have e: "s' = threadFunc_reap tid s"
      and g: "curThreadSize s > word_of_int (initThreadSize s)"
      by (auto split: if_splits)
    from g have "curThreadSize s \<noteq> 0" by auto
    then have "curThreadSize s - 1 \<le> curThreadSize s" by (rule word_pred_le_32)
    then have "(ucast (curThreadSize s - 1) :: 64 word) \<le> ucast (curThreadSize s)"
      by (rule ucast_mono_32_64)
    with b show ?thesis by (simp add: e threadFunc_reap_def)
  qed
next
  case (Worker_exit tid)
  with b step show ?thesis by (auto simp add: threadFunc_exit_def split: if_splits)
qed

lemma count_within_threshold_run:
  "ucast (curThreadSize s) \<le> threadSizeThreshHold s \<Longrightarrow>
   \<forall>x \<in> set steps. \<forall>n. x \<noteq> Call_start n \<and> x \<noteq> Call_setThreadSizeThreshHold n \<Longrightarrow>
   run steps s = Inr s' \<Longrightarrow>
   ucast (curThreadSize s') \<le> threadSizeThreshHold s'"
proof (induction steps arbitrary: s)
  case Nil
  then show ?case by simp
next
  case (Cons x xs)
  from Cons.prems(3) obtain s1 where 1: "do_step x s = Inr s1" and 2: "run xs s1 = Inr s'"
    by (auto split: sum.splits)
  from Cons.prems(2) have x: "\<forall>n. x \<noteq> Call_start n \<and> x \<noteq> Call_setThreadSizeThreshHold n"
    and xs: "\<forall>y \<in> set xs. \<forall>n. y \<noteq> Call_start n \<and> y \<noteq> Call_setThreadSizeThreshHold n"
    by simp_all
  from count_within_threshold_step [OF Cons.prems(1) x 1]
  have "ucast (curThreadSize s1) \<le> threadSizeThreshHold s1" .
  from Cons.IH [OF this xs 2] show ?case .
qed

subsection \<open>Runs: what each step changes\<close>

text \<open>\<^verbatim>\<open>start\<close> touches neither the queue nor the tasks.\<close>

lemma start_create_frame:
  "same_queue s (start_create n s) \<and> same_tasks s (start_create n s)"
proof (induction n arbitrary: s)
  case 0
  show ?case by (simp add: same_queue_def same_tasks_def)
next
  case (Suc n)
  let ?s1 = "(snd (Thread_ctor s))\<lparr>threads := umap_insert (threadId (fst (Thread_ctor s)), fst (Thread_ctor s)) (threads (snd (Thread_ctor s))),
               curThreadSize := curThreadSize (snd (Thread_ctor s)) + 1\<rparr>"
  from Suc.IH [of ?s1] show ?case
    by (simp add: same_queue_def same_tasks_def Thread_ctor_def)
qed

lemma start_launch_frame:
  "start_launch i n s = Inr s' \<Longrightarrow> same_queue s s' \<and> same_tasks s s'"
proof (induction n arbitrary: i s)
  case 0
  then show ?case by (simp add: same_queue_def same_tasks_def)
next
  case (Suc n)
  from Suc.prems obtain t where t: "map_of (threads s) i = Some t"
    and r: "start_launch (i + 1) n ((Thread_start t s)\<lparr>idleThreadSize := idleThreadSize s + 1\<rparr>) = Inr s'"
    by (auto split: option.splits)
  from Suc.IH [OF r] show ?case
    by (simp add: same_queue_def same_tasks_def Thread_start_def)
qed

lemma ThreadPool_start_frame:
  "ThreadPool_start n s = Inr s' \<Longrightarrow> same_queue s s' \<and> same_tasks s s'"
proof -
  assume a: "ThreadPool_start n s = Inr s'"
  let ?s1 = "s\<lparr>isPoolRunning := True, initThreadSize := n\<rparr>"
  from a have "start_launch 0 (nat n) (start_create (nat n) ?s1) = Inr s'"
    by (simp add: ThreadPool_start_def)
  from start_launch_frame [OF this] start_create_frame [of ?s1 "nat n"]
  show ?thesis by (simp add: same_queue_def same_tasks_def)
qed


text \<open>A submission as a step: the wait has ended in the state the step starts in.\<close>

lemma submit_step:
  assumes "do_step (Call_submitTask sp this) s = Inr s'"
  shows "\<exists>t. task_heap s sp = Some t
           \<and> task_heap s' = (task_heap s)(sp \<mapsto> t\<lparr>result := Some this\<rparr>)
           \<and> local_task s' = local_task s \<and> run_log s' = run_log s
           \<and> taskQueMaxThreshHold s' = taskQueMaxThreshHold s
           \<and> (if notFull_pred s
               then taskQue s' = taskQue s @ [sp] \<and> taskSize s' = taskSize s + 1
                    \<and> observe (Call_submitTask sp this) s = [Enqueued sp]
               else taskQue s' = taskQue s \<and> taskSize s' = taskSize s
                    \<and> observe (Call_submitTask sp this) s = [])"
proof (cases "notFull_pred s")
  case True
  let ?s2 = "s\<lparr>taskQue := taskQue s @ [sp], taskSize := taskSize s + 1\<rparr>"
  obtain s3 where s3: "(if needs_new_thread ?s2 then add_thread ?s2 else Inr ?s2) = Inr s3"
    and f: "same_queue ?s2 s3" "same_tasks ?s2 s3"
    using add_thread_frame [of ?s2]
    by (cases "needs_new_thread ?s2") (auto simp add: same_queue_def same_tasks_def)
  from assms True s3 obtain t where t: "task_heap s3 sp = Some t"
    by (auto simp add: submitTask_def Result_ctor_def split: option.splits)
  from assms True s3 t have e:
    "s' = s3\<lparr>result_heap := (result_heap s3)(this \<mapsto>
                 \<lparr>any = Any_default, sem = Semaphore_ctor 0, task = sp, isValid = True\<rparr>),
              task_heap := (task_heap s3)(sp \<mapsto> t\<lparr>result := Some this\<rparr>)\<rparr>"
    by (simp add: submitTask_def Result_ctor_def)
  have o: "submitTask sp this (Timeout s) s = Inr (this, s')"
    using True s3 t e by (simp add: submitTask_def Result_ctor_def)
  from t f True show ?thesis
    by (simp add: o) (simp add: e same_queue_def same_tasks_def)
next
  case False
  let ?s1 = "s\<lparr>cerr := cerr s @ [''task queue is full, submit task fail.'']\<rparr>"
  from assms False obtain t where t: "task_heap s sp = Some t"
    by (auto simp add: submitTask_def Result_ctor_def split: option.splits)
  from assms False t have e:
    "s' = ?s1\<lparr>result_heap := (result_heap ?s1)(this \<mapsto>
                 \<lparr>any = Any_default, sem = Semaphore_ctor 0, task = sp, isValid = False\<rparr>),
              task_heap := (task_heap ?s1)(sp \<mapsto> t\<lparr>result := Some this\<rparr>)\<rparr>"
    by (simp add: submitTask_def Result_ctor_def)
  have o: "submitTask sp this (Timeout s) s = Inr (this, s')"
    using False t e by (simp add: submitTask_def Result_ctor_def)
  from t False show ?thesis
    by (simp add: o) (simp add: e)
qed


subsection \<open>The queue invariant\<close>

lemma unat_succ_32:
  fixes c :: "32 word"
  shows "unat c + 1 < 2 ^ 32 \<Longrightarrow> unat (c + 1) = unat c + 1"
  by (simp add: unat_word_ariths)

lemma unat_pred_32:
  fixes c :: "32 word"
  shows "unat c \<noteq> 0 \<Longrightarrow> unat (c - 1) = unat c - 1"
  by (simp add: unat_minus_one unat_eq_zero)

lemma queue_inv_step:
  assumes inv: "queue_inv s" and small: "unat (taskQueMaxThreshHold s) < 2 ^ 32"
    and x: "\<forall>n. x \<noteq> Call_setTaskQueMaxThreshHold n"
    and step: "do_step x s = Inr s'"
  shows "queue_inv s' \<and> taskQueMaxThreshHold s' = taskQueMaxThreshHold s"
proof (cases x)
  case (Call_setTaskQueMaxThreshHold n)
  with x show ?thesis by simp
next
  case (Call_setThreadSizeThreshHold n)
  with inv step show ?thesis
    by (auto simp add: queue_inv_def setThreadSizeThreshHold_def)
next
  case (Call_setMode m)
  with inv step show ?thesis
    by (auto simp add: queue_inv_def setMode_def)
next
  case (Call_start n)
  with step have "ThreadPool_start n s = Inr s'" by simp
  from ThreadPool_start_frame [OF this] inv show ?thesis
    by (simp add: queue_inv_def same_queue_def)
next
  case (Call_submitTask sp this)
  from submit_step [OF step [unfolded Call_submitTask]]
  have m: "taskQueMaxThreshHold s' = taskQueMaxThreshHold s"
    and q: "if notFull_pred s
            then taskQue s' = taskQue s @ [sp] \<and> taskSize s' = taskSize s + 1
            else taskQue s' = taskQue s \<and> taskSize s' = taskSize s"
    by (auto split: if_splits)
  show ?thesis
  proof (cases "notFull_pred s")
    case True
    then have l: "length (taskQue s) < unat (taskQueMaxThreshHold s)"
      by (simp add: notFull_pred_def)
    with inv small have "unat (taskSize s) + 1 < 2 ^ 32"
      by (simp add: queue_inv_def)
    then have "unat (taskSize s + 1) = unat (taskSize s) + 1"
      by (rule unat_succ_32)
    with True q m l inv show ?thesis
      by (simp add: queue_inv_def)
  next
    case False
    with q m inv show ?thesis by (simp add: queue_inv_def)
  qed
next
  case Call_destructor
  with inv step show ?thesis
    by (auto simp add: queue_inv_def ThreadPool_dtor_begin_def)
next
  case (Worker_take tid)
  show ?thesis
  proof (cases "is_worker tid s \<and> local_task s tid = None \<and> taskQue s \<noteq> []")
    case True
    then obtain front rest where fr: "taskQue s = front # rest"
      by (cases "taskQue s") auto
    with inv have "unat (taskSize s) \<noteq> 0" by (simp add: queue_inv_def)
    then have "unat (taskSize s - 1) = unat (taskSize s) - 1"
      by (rule unat_pred_32)
    with True fr inv step Worker_take show ?thesis
      by (auto simp add: queue_inv_def threadFunc_take_def)
  next
    case False
    with inv step Worker_take show ?thesis
      by (auto simp add: threadFunc_take_def split: list.splits if_splits)
  qed
next
  case (Worker_run tid)
  with inv step show ?thesis
    by (auto simp add: queue_inv_def threadFunc_run_def Task_exec_def
        split: if_splits option.splits sum.splits)
next
  case (Worker_reap tid)
  with inv step show ?thesis
    by (auto simp add: queue_inv_def threadFunc_reap_def split: if_splits)
next
  case (Worker_exit tid)
  with inv step show ?thesis
    by (auto simp add: queue_inv_def threadFunc_exit_def split: if_splits)
qed

lemma run_append:
  "run (xs @ ys) s = (case run xs s of Inl e \<Rightarrow> Inl e | Inr s' \<Rightarrow> run ys s')"
  by (induction xs arbitrary: s) (auto split: sum.splits)

text \<open>
  C3, amended. From a state in which the pending count is the length of the queue and
  the queue is within a configured maximum below \<open>2^32\<close>, both hold again after every
  run (of \<^verbatim>\<open>start\<close>, \<^verbatim>\<open>submitTask\<close>, the workers' steps, the other setters, the
  destructor) in which the maximum is not set anew, and the maximum is unchanged. The
  state after the constructor is such a state.
\<close>

theorem queue_inv_preserved:
  "queue_inv s \<Longrightarrow> unat (taskQueMaxThreshHold s) < 2 ^ 32 \<Longrightarrow>
   (\<forall>x \<in> set steps. \<forall>n. x \<noteq> Call_setTaskQueMaxThreshHold n) \<Longrightarrow>
   run steps s = Inr s' \<Longrightarrow>
   queue_inv s' \<and> taskQueMaxThreshHold s' = taskQueMaxThreshHold s"
proof (induction steps arbitrary: s)
  case Nil
  then show ?case by simp
next
  case (Cons x xs)
  from Cons.prems(4) obtain s1 where 1: "do_step x s = Inr s1" and 2: "run xs s1 = Inr s'"
    by (auto split: sum.splits)
  from Cons.prems(3) have x: "\<forall>n. x \<noteq> Call_setTaskQueMaxThreshHold n"
    and xs: "\<forall>y \<in> set xs. \<forall>n. y \<noteq> Call_setTaskQueMaxThreshHold n"
    by simp_all
  from queue_inv_step [OF Cons.prems(1) Cons.prems(2) x 1]
  have i: "queue_inv s1" and m: "taskQueMaxThreshHold s1 = taskQueMaxThreshHold s"
    by simp_all
  from Cons.IH [OF i _ xs 2] m Cons.prems(2) show ?case by simp
qed

text \<open>The constructor's state has both, with the default maximum \<^verbatim>\<open>INT32_MAX\<close>.\<close>

lemma queue_inv_ctor:
  "queue_inv (ThreadPool_ctor ts) \<and> unat (taskQueMaxThreshHold (ThreadPool_ctor ts)) < 2 ^ 32"
  by (simp add: queue_inv_def ThreadPool_ctor_def TASK_MAX_THRESHHOLD_def)

text \<open>
  C3 as stated fails: a pool that is not started accepts tasks and still lets the maximum
  be set. After two submissions and \<^verbatim>\<open>setTaskQueMaxThreshHold(1)\<close> the queue holds two
  tasks with a configured maximum of one.
\<close>

theorem queue_longer_than_bound:
  "after (length \<circ> taskQue)
     (run [Call_submitTask 0 10, Call_submitTask 1 11, Call_setTaskQueMaxThreshHold 1]
        (ThreadPool_ctor two_tasks)) = Some 2
   \<and> after taskQueMaxThreshHold
     (run [Call_submitTask 0 10, Call_submitTask 1 11, Call_setTaskQueMaxThreshHold 1]
        (ThreadPool_ctor two_tasks)) = Some 1
   \<and> after queue_inv
     (run [Call_submitTask 0 10, Call_submitTask 1 11, Call_setTaskQueMaxThreshHold 1]
        (ThreadPool_ctor two_tasks)) = Some False"
  by (simp add: after_def queue_inv_def ThreadPool_ctor_def two_tasks_def
      setTaskQueMaxThreshHold_def chackRunningState_def
      submitTask_def notFull_pred_def needs_new_thread_def Result_ctor_def
      TASK_MAX_THRESHHOLD_def THREAD_MAX_THRESHHOLD_def)

text \<open>The concrete states are states of runs from the constructor.\<close>

lemma full_queue_reached:
  "run [Call_setTaskQueMaxThreshHold 1, Call_start 1, Call_submitTask 0 10]
     (ThreadPool_ctor two_tasks) = Inr full_queue"
  by (simp add: full_queue_def ThreadPool_ctor_def two_tasks_def setTaskQueMaxThreshHold_def
      chackRunningState_def ThreadPool_start_def Thread_ctor_def Thread_start_def umap_insert_def
      submitTask_def notFull_pred_def needs_new_thread_def Result_ctor_def
      TASK_MAX_THRESHHOLD_def THREAD_MAX_THRESHHOLD_def)

lemma queue_drained_reached: "do_step (Worker_take 0) full_queue = Inr queue_drained"
  by (simp add: full_queue_def queue_drained_def is_worker_def threadFunc_take_def
      ThreadPool_ctor_def)

lemma cached_pool_reached:
  "run [Call_setMode MODE_CACHED, Call_setThreadSizeThreshHold 2, Call_start 1,
        Call_submitTask 0 10] (ThreadPool_ctor two_tasks) = Inr cached_pool"
  by (simp add: cached_pool_def full_queue_def ThreadPool_ctor_def two_tasks_def
      setMode_def setThreadSizeThreshHold_def
      chackRunningState_def ThreadPool_start_def Thread_ctor_def Thread_start_def umap_insert_def
      submitTask_def notFull_pred_def needs_new_thread_def Result_ctor_def
      TASK_MAX_THRESHHOLD_def THREAD_MAX_THRESHHOLD_def)

text \<open>
  C3, amended, along a run: the maximum is set to 1 first, then the pool is started, a
  task is submitted and the worker takes it.
\<close>

theorem queue_inv_preserved_witness:
  "queue_inv (ThreadPool_ctor two_tasks)
   \<and> run [Call_setTaskQueMaxThreshHold 1, Call_start 1, Call_submitTask 0 10, Worker_take 0]
       (ThreadPool_ctor two_tasks) = Inr queue_drained
   \<and> queue_inv full_queue \<and> queue_inv queue_drained"
proof -
  have r1: "run [Call_start 1, Call_submitTask 0 10]
              (setTaskQueMaxThreshHold 1 (ThreadPool_ctor two_tasks)) = Inr full_queue"
    using full_queue_reached by simp
  have r2: "run [Call_start 1, Call_submitTask 0 10, Worker_take 0]
              (setTaskQueMaxThreshHold 1 (ThreadPool_ctor two_tasks)) = Inr queue_drained"
    using run_append [of "[Call_start 1, Call_submitTask 0 10]" "[Worker_take 0]"
        "setTaskQueMaxThreshHold 1 (ThreadPool_ctor two_tasks)"] r1 queue_drained_reached
    by simp
  have i: "queue_inv (setTaskQueMaxThreshHold 1 (ThreadPool_ctor two_tasks))"
    and m: "unat (taskQueMaxThreshHold (setTaskQueMaxThreshHold 1 (ThreadPool_ctor two_tasks))) < 2 ^ 32"
    by (simp_all add: queue_inv_def setTaskQueMaxThreshHold_def chackRunningState_def
        ThreadPool_ctor_def)
  have n1: "\<forall>x \<in> set [Call_start 1, Call_submitTask 0 10]. \<forall>n. x \<noteq> Call_setTaskQueMaxThreshHold n"
    and n2: "\<forall>x \<in> set [Call_start 1, Call_submitTask 0 10, Worker_take 0].
               \<forall>n. x \<noteq> Call_setTaskQueMaxThreshHold n"
    by simp_all
  from queue_inv_preserved [OF i m n1 r1] queue_inv_preserved [OF i m n2 r2]
    queue_inv_ctor [of two_tasks] r2
  show ?thesis by simp
qed


subsection \<open>First in, first out\<close>

lemma enqueued_append: "enqueued (es @ fs) = enqueued es @ enqueued fs"
  by (induction es rule: enqueued.induct) simp_all

lemma dequeued_append: "dequeued (es @ fs) = dequeued es @ dequeued fs"
  by (induction es rule: dequeued.induct) simp_all

lemma fifo_step:
  assumes step: "do_step x s = Inr s'"
  shows "dequeued (observe x s) @ taskQue s' = taskQue s @ enqueued (observe x s)"
proof (cases x)
  case (Call_setTaskQueMaxThreshHold n)
  with step show ?thesis by (auto simp add: setTaskQueMaxThreshHold_def)
next
  case (Call_setThreadSizeThreshHold n)
  with step show ?thesis by (auto simp add: setThreadSizeThreshHold_def)
next
  case (Call_setMode m)
  with step show ?thesis by (auto simp add: setMode_def)
next
  case (Call_start n)
  with step have "ThreadPool_start n s = Inr s'" by simp
  from ThreadPool_start_frame [OF this] Call_start show ?thesis
    by (simp add: same_queue_def)
next
  case (Call_submitTask sp this)
  from submit_step [OF step [unfolded Call_submitTask]] Call_submitTask show ?thesis
    by (auto split: if_splits)
next
  case Call_destructor
  with step show ?thesis by (auto simp add: ThreadPool_dtor_begin_def)
next
  case (Worker_take tid)
  with step show ?thesis
    by (auto simp add: threadFunc_take_def split: list.splits if_splits)
next
  case (Worker_run tid)
  with step show ?thesis
    by (auto simp add: threadFunc_run_def Task_exec_def
        split: if_splits option.splits sum.splits)
next
  case (Worker_reap tid)
  with step show ?thesis
    by (auto simp add: threadFunc_reap_def split: if_splits)
next
  case (Worker_exit tid)
  with step show ?thesis
    by (auto simp add: threadFunc_exit_def split: if_splits)
qed

lemma fifo_run:
  "run steps s = Inr s' \<Longrightarrow>
   dequeued (events steps s) @ taskQue s' = taskQue s @ enqueued (events steps s)"
proof (induction steps arbitrary: s)
  case Nil
  then show ?case by simp
next
  case (Cons x xs)
  from Cons.prems obtain s1 where 1: "do_step x s = Inr s1" and 2: "run xs s1 = Inr s'"
    by (auto split: sum.splits)
  have "dequeued (events (x # xs) s) @ taskQue s'
          = dequeued (observe x s) @ (dequeued (events xs s1) @ taskQue s')"
    using 1 by (simp add: dequeued_append)
  also have "\<dots> = dequeued (observe x s) @ (taskQue s1 @ enqueued (events xs s1))"
    using Cons.IH [OF 2] by simp
  also have "\<dots> = (taskQue s @ enqueued (observe x s)) @ enqueued (events xs s1)"
    using fifo_step [OF 1] by simp
  also have "\<dots> = taskQue s @ enqueued (events (x # xs) s)"
    using 1 by (simp add: enqueued_append)
  finally show ?case .
qed


text \<open>
  With a single worker \<open>w\<close>: every task in the queue or in the worker's hand is bound to
  a result, so its execution calls \<^verbatim>\<open>run()\<close>, and the calls follow the dequeues.
\<close>

lemma setters_frame:
  "taskQue (setTaskQueMaxThreshHold n s) = taskQue s
   \<and> same_tasks s (setTaskQueMaxThreshHold n s)
   \<and> same_queue s (setThreadSizeThreshHold n s) \<and> same_tasks s (setThreadSizeThreshHold n s)
   \<and> same_queue s (setMode m s) \<and> same_tasks s (setMode m s)
   \<and> same_queue s (ThreadPool_dtor_begin s) \<and> same_tasks s (ThreadPool_dtor_begin s)
   \<and> same_queue s (threadFunc_reap tid s) \<and> same_tasks s (threadFunc_reap tid s)
   \<and> same_queue s (threadFunc_exit tid s) \<and> same_tasks s (threadFunc_exit tid s)"
  by (simp add: same_queue_def same_tasks_def setTaskQueMaxThreshHold_def
      setThreadSizeThreshHold_def setMode_def ThreadPool_dtor_begin_def threadFunc_reap_def
      threadFunc_exit_def)

lemma exec_order_inert:
  assumes J: "\<forall>tid. tid \<noteq> w \<longrightarrow> local_task s tid = None"
    and B: "\<forall>tk \<in> set (taskQue s @ held w s). \<exists>t r. task_heap s tk = Some t \<and> result t = Some r"
    and q: "taskQue s' = taskQue s" and t: "same_tasks s s'" and o: "observe x s = []"
  shows "(\<forall>tid. tid \<noteq> w \<longrightarrow> local_task s' tid = None)
       \<and> (\<forall>tk \<in> set (taskQue s' @ held w s'). \<exists>t r. task_heap s' tk = Some t \<and> result t = Some r)
       \<and> run_log s' @ held w s' = run_log s @ held w s @ dequeued (observe x s)"
  using assms by (simp add: same_tasks_def held_def)

lemma exec_order_step:
  assumes J: "\<forall>tid. tid \<noteq> w \<longrightarrow> local_task s tid = None"
    and B: "\<forall>tk \<in> set (taskQue s @ held w s). \<exists>t r. task_heap s tk = Some t \<and> result t = Some r"
    and x: "worker_of x = None \<or> worker_of x = Some w"
    and step: "do_step x s = Inr s'"
  shows "(\<forall>tid. tid \<noteq> w \<longrightarrow> local_task s' tid = None)
       \<and> (\<forall>tk \<in> set (taskQue s' @ held w s'). \<exists>t r. task_heap s' tk = Some t \<and> result t = Some r)
       \<and> run_log s' @ held w s' = run_log s @ held w s @ dequeued (observe x s)"
proof (cases x)
  case (Call_setTaskQueMaxThreshHold n)
  with step have e: "s' = setTaskQueMaxThreshHold n s" by simp
  from setters_frame [where s=s and n=n] Call_setTaskQueMaxThreshHold show ?thesis
    by (intro exec_order_inert [OF J B]) (simp_all add: e)
next
  case (Call_setThreadSizeThreshHold n)
  with step have e: "s' = setThreadSizeThreshHold n s" by simp
  from setters_frame [where s=s and n=n] Call_setThreadSizeThreshHold show ?thesis
    by (intro exec_order_inert [OF J B]) (simp_all add: e same_queue_def)
next
  case (Call_setMode m)
  with step have e: "s' = setMode m s" by simp
  from setters_frame [where s=s and m=m] Call_setMode show ?thesis
    by (intro exec_order_inert [OF J B]) (simp_all add: e same_queue_def)
next
  case (Call_start n)
  with step have "ThreadPool_start n s = Inr s'" by simp
  from ThreadPool_start_frame [OF this] Call_start show ?thesis
    by (intro exec_order_inert [OF J B]) (simp_all add: same_queue_def)
next
  case (Call_submitTask sp this)
  from submit_step [OF step [unfolded Call_submitTask]]
  obtain t where t: "task_heap s sp = Some t"
    and h: "task_heap s' = (task_heap s)(sp \<mapsto> t\<lparr>result := Some this\<rparr>)"
    and l: "local_task s' = local_task s" "run_log s' = run_log s"
    and q: "taskQue s' = taskQue s @ [sp] \<or> taskQue s' = taskQue s"
    by (auto split: if_splits)
  have o: "dequeued (observe x s) = []"
    using Call_submitTask by (auto split: sum.splits option.splits)
  have hl: "held w s' = held w s" using l by (simp add: held_def)
  have b: "\<exists>t r. task_heap s' tk = Some t \<and> result t = Some r"
    if "tk \<in> set (taskQue s' @ held w s')" for tk
  proof (cases "tk = sp")
    case True
    with h show ?thesis by simp
  next
    case False
    with that q hl have "tk \<in> set (taskQue s @ held w s)" by auto
    with B False h show ?thesis by simp
  qed
  from J l hl o b show ?thesis by simp
next
  case Call_destructor
  with step have e: "s' = ThreadPool_dtor_begin s" by simp
  from setters_frame [where s=s] Call_destructor show ?thesis
    by (intro exec_order_inert [OF J B]) (simp_all add: e same_queue_def)
next
  case (Worker_take tid)
  with x have tid: "tid = w" by simp
  show ?thesis
  proof (cases "is_worker w s \<and> local_task s w = None \<and> taskQue s \<noteq> []")
    case True
    then obtain front rest where fr: "taskQue s = front # rest"
      by (cases "taskQue s") auto
    with True step Worker_take tid have e:
      "s' = s\<lparr>idleThreadSize := idleThreadSize s - 1,
              local_task := (local_task s)(w \<mapsto> front),
              taskQue := rest, taskSize := taskSize s - 1\<rparr>"
      by (simp add: threadFunc_take_def)
    have o: "dequeued (observe x s) = [front]"
      using True fr Worker_take tid by (simp add: threadFunc_take_def)
    from J B True fr show ?thesis
      by (simp add: o) (auto simp add: e held_def)
  next
    case False
    with step Worker_take tid have e: "s' = s"
      by (auto simp add: threadFunc_take_def split: list.splits if_splits)
    have o: "dequeued (observe x s) = []"
      using False Worker_take tid by (auto simp add: threadFunc_take_def split: list.splits)
    from J B show ?thesis by (simp add: o e)
  qed
next
  case (Worker_run tid)
  with x have tid: "tid = w" by simp
  show ?thesis
  proof (cases "is_worker w s \<and> local_task s w \<noteq> None")
    case True
    then obtain tk where tk: "local_task s w = Some tk" by auto
    with B obtain t r where t: "task_heap s tk = Some t" "result t = Some r"
      by (auto simp add: held_def)
    from step Worker_run tid True tk t obtain res where res: "result_heap s r = Some res"
      by (auto simp add: threadFunc_run_def Task_exec_def split: option.splits)
    from step Worker_run tid True tk t res have e:
      "s' = s\<lparr>run_log := run_log s @ [tk],
              result_heap := (result_heap s)(r \<mapsto> Result_setVal res (run_returns t)),
              idleThreadSize := idleThreadSize s + 1,
              local_task := (local_task s)(w := None)\<rparr>"
      by (simp add: threadFunc_run_def Task_exec_def)
    from J B tk Worker_run show ?thesis
      by (auto simp add: e held_def)
  next
    case False
    with step Worker_run tid have e: "s' = s" by auto
    from J B Worker_run show ?thesis by (simp add: e)
  qed
next
  case (Worker_reap tid)
  with step have e: "s' = threadFunc_reap tid s \<or> s' = s" by (auto split: if_splits)
  from setters_frame [where s=s and tid=tid] Worker_reap e show ?thesis
    by (intro exec_order_inert [OF J B]) (auto simp add: same_queue_def same_tasks_def)
next
  case (Worker_exit tid)
  with step have e: "s' = threadFunc_exit tid s \<or> s' = s" by (auto split: if_splits)
  from setters_frame [where s=s and tid=tid] Worker_exit e show ?thesis
    by (intro exec_order_inert [OF J B]) (auto simp add: same_queue_def same_tasks_def)
qed

lemma exec_order_run:
  "\<forall>tid. tid \<noteq> w \<longrightarrow> local_task s tid = None \<Longrightarrow>
   \<forall>tk \<in> set (taskQue s @ held w s). \<exists>t r. task_heap s tk = Some t \<and> result t = Some r \<Longrightarrow>
   \<forall>x \<in> set steps. worker_of x = None \<or> worker_of x = Some w \<Longrightarrow>
   run steps s = Inr s' \<Longrightarrow>
   run_log s' @ held w s' = run_log s @ held w s @ dequeued (events steps s)"
proof (induction steps arbitrary: s)
  case Nil
  then show ?case by simp
next
  case (Cons x xs)
  from Cons.prems(4) obtain s1 where 1: "do_step x s = Inr s1" and 2: "run xs s1 = Inr s'"
    by (auto split: sum.splits)
  from Cons.prems(3) have x: "worker_of x = None \<or> worker_of x = Some w"
    and xs: "\<forall>y \<in> set xs. worker_of y = None \<or> worker_of y = Some w"
    by simp_all
  from exec_order_step [OF Cons.prems(1) Cons.prems(2) x 1]
  have J: "\<forall>tid. tid \<noteq> w \<longrightarrow> local_task s1 tid = None"
    and B: "\<forall>tk \<in> set (taskQue s1 @ held w s1). \<exists>t r. task_heap s1 tk = Some t \<and> result t = Some r"
    and L: "run_log s1 @ held w s1 = run_log s @ held w s @ dequeued (observe x s)"
    by blast+
  have "run_log s' @ held w s' = (run_log s1 @ held w s1) @ dequeued (events xs s1)"
    using Cons.IH [OF J B xs 2] by simp
  also have "\<dots> = run_log s @ held w s @ dequeued (observe x s) @ dequeued (events xs s1)"
    using L by simp
  also have "\<dots> = run_log s @ held w s @ dequeued (events (x # xs) s)"
    using 1 by (simp add: dequeued_append)
  finally show ?case .
qed

text \<open>
  C6. In every run from the constructor's state, the tasks the workers have dequeued,
  followed by the tasks still in the queue, are the tasks of the successful submissions in
  the order of those submissions: workers remove tasks in exactly the order they were
  enqueued. If all the worker steps of the run are steps of one worker \<open>w\<close>, the calls of
  \<^verbatim>\<open>run()\<close>, followed by the task \<open>w\<close> has in hand, are the dequeued tasks in that
  order: the tasks execute in submission order.
\<close>

theorem tasks_dequeued_in_submission_order:
  "run steps (ThreadPool_ctor ts) = Inr s' \<Longrightarrow>
     dequeued (events steps (ThreadPool_ctor ts)) @ taskQue s'
       = enqueued (events steps (ThreadPool_ctor ts))
     \<and> ((\<forall>x \<in> set steps. worker_of x = None \<or> worker_of x = Some w) \<longrightarrow>
          run_log s' @ held w s' = dequeued (events steps (ThreadPool_ctor ts)))"
proof (intro conjI impI)
  assume r: "run steps (ThreadPool_ctor ts) = Inr s'"
  from fifo_run [OF r]
  show "dequeued (events steps (ThreadPool_ctor ts)) @ taskQue s'
          = enqueued (events steps (ThreadPool_ctor ts))"
    by (simp add: ThreadPool_ctor_def)
  assume one: "\<forall>x \<in> set steps. worker_of x = None \<or> worker_of x = Some w"
  have J: "\<forall>tid. tid \<noteq> w \<longrightarrow> local_task (ThreadPool_ctor ts) tid = None"
    by (simp add: ThreadPool_ctor_def)
  have B: "\<forall>tk \<in> set (taskQue (ThreadPool_ctor ts) @ held w (ThreadPool_ctor ts)).
             \<exists>t r. task_heap (ThreadPool_ctor ts) tk = Some t \<and> result t = Some r"
    by (simp add: ThreadPool_ctor_def held_def)
  from exec_order_run [OF J B one r]
  show "run_log s' @ held w s' = dequeued (events steps (ThreadPool_ctor ts))"
    by (simp add: ThreadPool_ctor_def held_def)
qed

text \<open>
  C6 on a run with one worker: tasks 0 and 1 are submitted, dequeued and run in that
  order.
\<close>

theorem tasks_dequeued_in_submission_order_witness:
  "enqueued (events two_jobs (ThreadPool_ctor two_tasks)) = [0, 1]
   \<and> dequeued (events two_jobs (ThreadPool_ctor two_tasks)) = [0, 1]
   \<and> after taskQue (run two_jobs (ThreadPool_ctor two_tasks)) = Some []
   \<and> after run_log (run two_jobs (ThreadPool_ctor two_tasks)) = Some [0, 1]"
proof -
  obtain s' where r: "run two_jobs (ThreadPool_ctor two_tasks) = Inr s'"
    by (simp add: two_jobs_def eval_defs)
  have h: "after (held 0) (run two_jobs (ThreadPool_ctor two_tasks)) = Some []"
    by (simp add: two_jobs_def eval_defs)
  have d: "dequeued (events two_jobs (ThreadPool_ctor two_tasks)) = [0, 1]"
    by (simp add: two_jobs_def eval_defs)
  have one: "\<forall>x \<in> set two_jobs. worker_of x = None \<or> worker_of x = Some 0"
    by (simp add: two_jobs_def)
  from tasks_dequeued_in_submission_order [OF r, of 0] one
  have q: "dequeued (events two_jobs (ThreadPool_ctor two_tasks)) @ taskQue s'
             = enqueued (events two_jobs (ThreadPool_ctor two_tasks))"
    and l: "run_log s' @ held 0 s' = dequeued (events two_jobs (ThreadPool_ctor two_tasks))"
    by blast+
  have q0: "after taskQue (run two_jobs (ThreadPool_ctor two_tasks)) = Some []"
    by (simp add: two_jobs_def eval_defs)
  from h r have "held 0 s' = []" by (simp add: after_def)
  with l d have "run_log s' = [0, 1]" by simp
  moreover from q0 r have "taskQue s' = []" by (simp add: after_def)
  with q d have "enqueued (events two_jobs (ThreadPool_ctor two_tasks)) = [0, 1]" by simp
  ultimately show ?thesis using d q0 r by (simp add: after_def)
qed

subsection \<open>The registry invariant\<close>

text \<open>
  The two ways a worker leaves, as the loop of \<^verbatim>\<open>threadFunc\<close> reaches them: woken in
  fixed mode after the destructor has cleared the running flag, and timed out in cached
  mode after 60 idle seconds with more workers than the pool started with.
\<close>

lemma shutdown_exit_in_loop:
  "isPoolRunning s \<Longrightarrow> taskQue s = [] \<Longrightarrow> poolMode s = MODE_FIXED \<Longrightarrow>
   threadFunc_iteration tid [Wake st dur (ThreadPool_dtor_begin s)] s
     = Stopped (threadFunc_exit tid (ThreadPool_dtor_begin s))"
  by (simp add: threadFunc_iteration_def ThreadPool_dtor_begin_def)

lemma reap_in_loop:
  "isPoolRunning s \<Longrightarrow> taskQue s = [] \<Longrightarrow> poolMode s = MODE_CACHED \<Longrightarrow>
   dur \<ge> 60 \<Longrightarrow> curThreadSize s' > word_of_int (initThreadSize s') \<Longrightarrow>
   threadFunc_iteration tid (Wake timeout dur s' # ws) s = Stopped (threadFunc_reap tid s')"
  by (simp add: threadFunc_iteration_def THREAD_MAX_IDLE_TIME_def)

text \<open>
  The idle-timeout path takes the worker out of the registry and both counters down, and
  keeps the invariant; the shutdown path only takes the worker out of the registry, and
  breaks it.
\<close>

lemma length_umap_erase:
  "distinct (map fst m) \<Longrightarrow> map_of m k \<noteq> None \<Longrightarrow> length (umap_erase k m) = length m - 1"
proof (induction m)
  case Nil
  then show ?case by simp
next
  case (Cons kv m)
  show ?case
  proof (cases "fst kv = k")
    case True
    with Cons.prems have "k \<notin> fst ` set m" by auto
    then have "filter (\<lambda>kv. fst kv \<noteq> k) m = m"
      by (auto simp add: filter_id_conv)
    with True show ?thesis by (simp add: umap_erase_def)
  next
    case False
    with Cons.prems have "map_of m k \<noteq> None" by (cases kv) auto
    moreover from this have "m \<noteq> []" by auto
    ultimately show ?thesis
      using Cons.IH Cons.prems False by (cases m) (auto simp add: umap_erase_def)
  qed
qed

lemma reap_keeps_registry_inv:
  assumes inv: "registry_inv s" and d: "distinct (map fst (threads s))"
    and w: "is_worker tid s" and i: "idleThreadSize s \<noteq> 0"
  shows "registry_inv (threadFunc_reap tid s)"
proof -
  from w have k: "map_of (threads s) tid \<noteq> None" by (simp add: is_worker_def)
  then have "threads s \<noteq> []" by auto
  with inv have c: "curThreadSize s \<noteq> 0"
    by (auto simp add: registry_inv_def)
  from inv have le: "unat (idleThreadSize s) \<le> unat (curThreadSize s)"
    by (simp add: registry_inv_def word_le_nat_alt)
  have "unat (idleThreadSize s - 1) = unat (idleThreadSize s) - 1"
    and "unat (curThreadSize s - 1) = unat (curThreadSize s) - 1"
    using i c by (simp_all add: unat_minus_one)
  with le inv length_umap_erase [OF d k] show ?thesis
    by (simp add: registry_inv_def threadFunc_reap_def word_le_nat_alt)
qed

lemma exit_breaks_registry_inv:
  assumes inv: "registry_inv s" and d: "distinct (map fst (threads s))"
    and w: "is_worker tid s"
  shows "\<not> registry_inv (threadFunc_exit tid s)"
proof -
  from w have k: "map_of (threads s) tid \<noteq> None" by (simp add: is_worker_def)
  then have "length (threads s) \<noteq> 0" by auto
  with inv length_umap_erase [OF d k] show ?thesis
    by (simp add: registry_inv_def threadFunc_exit_def)
qed

text \<open>
  C4, on the code: after \<^verbatim>\<open>start(1)\<close> the registry has one entry and the current
  count is 1. When the destructor has cleared the running flag and worker 0 leaves, the
  registry is empty and the current count is still 1.
\<close>

theorem shutdown_exit_breaks_registry_inv:
  "after registry_inv (run [Call_start 1] (ThreadPool_ctor Map.empty)) = Some True
   \<and> after (length \<circ> threads)
       (run [Call_start 1, Call_destructor, Worker_exit 0] (ThreadPool_ctor Map.empty)) = Some 0
   \<and> after curThreadSize
       (run [Call_start 1, Call_destructor, Worker_exit 0] (ThreadPool_ctor Map.empty)) = Some 1
   \<and> after registry_inv
       (run [Call_start 1, Call_destructor, Worker_exit 0] (ThreadPool_ctor Map.empty))
       = Some False"
  by (simp add: eval_defs registry_inv_def)

end
